theory Spec2Isabelle
  imports Main "HOL-Library.Word"
begin

section \<open>bowtie-inspect: data\<close>

text \<open>
  The embedding follows \<^verbatim>\<open>bowtie_inspect.cpp\<close>. \<^verbatim>\<open>uint32_t\<close> is \<open>32 word\<close>;
  \<^verbatim>\<open>int\<close> is a \<open>32 word\<close> and \<^verbatim>\<open>long\<close> (LP64) a \<open>64 word\<close>, both read with
  \<open>sint\<close>; a \<^verbatim>\<open>size_t\<close> is a \<open>nat\<close> below \<open>2 ^ 64\<close>, with the wrap-around written
  out wherever the source adds or subtracts.
  A \<^verbatim>\<open>std::string\<close> is a \<open>string\<close>; the output stream is the list of the lines written
  to it (every \<^verbatim>\<open><< endl\<close> closes one line).
\<close>

type_synonym u32 = "32 word"
type_synonym c_int = "32 word"
type_synonym c_long = "64 word"

text \<open>The alphabet of the joined text, \<^verbatim>\<open>String<Dna, Packed<> >\<close>, and the character
  that \<^verbatim>\<open>push_back(getValue(cat_ref, i))\<close> stores.\<close>

datatype Dna = A | C | G | T

fun dna_char :: "Dna \<Rightarrow> char" where
  "dna_char A = CHR ''A''"
| "dna_char C = CHR ''C''"
| "dna_char G = CHR ''G''"
| "dna_char T = CHR ''T''"

text \<open>
  \<^verbatim>\<open>Ebwt::joinedToTextOff\<close> lives in \<^verbatim>\<open>ebwt.h\<close>, which is not part of the source at
  hand, so it is a parameter: \<open>joinedToTextOff i\<close> is the triple
  \<open>(tidx, textoff, tlen)\<close> held by the three reference arguments after the call
  \<^verbatim>\<open>ebwt.joinedToTextOff(1, i, tidx, textoff, tlen, true)\<close>, each of which holds
  \<^verbatim>\<open>0xffffffff\<close> before it.
\<close>

type_synonym joined_map = "nat \<Rightarrow> u32 \<times> u32 \<times> u32"

text \<open>The index as \<^verbatim>\<open>print_index_sequences\<close> and \<^verbatim>\<open>print_index_sequence_names\<close> use it:
  \<^verbatim>\<open>ebwt.refnames()\<close>, the mapping of joined positions, and the text that
  \<^verbatim>\<open>ebwt.restore(cat_ref)\<close> yields.\<close>

record ebwt =
  refnames :: "string list"
  joinedToTextOff :: joined_map
  restore :: "Dna list"

section \<open>The scan of \<^verbatim>\<open>print_index_sequences\<close>\<close>

text \<open>
  The local variables of \<^verbatim>\<open>print_index_sequences\<close>. The loop writes to \<^verbatim>\<open>fout\<close> only
  through \<^verbatim>\<open>print_fasta_record(fout, (*refnames)[curr_ref], curr_ref_seq)\<close>, and nothing
  it computes depends on what was written; \<open>calls\<close> lists the pairs
  \<open>(curr_ref, curr_ref_seq)\<close> of these calls in the order they are made.
\<close>

record scan_state =
  curr_ref :: u32
  curr_ref_seq :: string
  last_text_off :: u32
  tlen :: u32
  calls :: "(u32 \<times> string) list"

definition scan_init :: scan_state where
  "scan_init = \<lparr>curr_ref = 0xffffffff, curr_ref_seq = [], last_text_off = 0,
                 tlen = 0xffffffff, calls = []\<rparr>"

text \<open>\<^verbatim>\<open>if(curr_ref_seq.length() < tlen) curr_ref_seq += string(tlen - curr_ref_seq.length(), 'N');\<close>\<close>

definition add_trailing_gaps :: "u32 \<Rightarrow> string \<Rightarrow> string" where
  "add_trailing_gaps tln s =
     (if length s < unat tln then s @ replicate (unat tln - length s) CHR ''N'' else s)"

text \<open>One iteration of the \<^verbatim>\<open>for\<close> loop, at joined position \<open>i\<close>. The subtractions on
  \<open>textoff\<close> and \<open>last_text_off\<close> are \<^verbatim>\<open>uint32_t\<close> subtractions and wrap.\<close>

definition scan_step :: "joined_map \<Rightarrow> Dna list \<Rightarrow> nat \<Rightarrow> scan_state \<Rightarrow> scan_state" where
  "scan_step jtt cat_ref i st =
     (case jtt i of (tidx, textoff, tln) \<Rightarrow>
        if tidx \<noteq> 0xffffffff \<and> textoff < tln then
          (let st1 =
                 (if curr_ref st \<noteq> tidx then
                    (let st0 =
                           (if curr_ref st \<noteq> 0xffffffff then
                              st\<lparr>calls := calls st @
                                   [(curr_ref st, add_trailing_gaps tln (curr_ref_seq st))]\<rparr>
                            else st)
                     in st0\<lparr>curr_ref := tidx, curr_ref_seq := [], last_text_off := 0\<rparr>)
                  else st);
               st2 =
                 (if 1 < textoff - last_text_off st1 then
                    st1\<lparr>curr_ref_seq := curr_ref_seq st1 @
                          replicate
                            (unat (textoff - last_text_off st1
                                     - (if last_text_off st1 \<noteq> 0 then 1 else 0)))
                            CHR ''N''\<rparr>
                  else st1)
           in st2\<lparr>curr_ref_seq := curr_ref_seq st2 @ [dna_char (cat_ref ! i)],
                  last_text_off := textoff, tlen := tln\<rparr>)
        else st\<lparr>tlen := tln\<rparr>)"

text \<open>The loop over the positions \<open>ps\<close>, in order; the source runs it over
  \<open>0, \<dots>, length cat_ref - 1\<close>, so \<open>cat_ref ! i\<close> is always in range.\<close>

definition scan_positions :: "joined_map \<Rightarrow> Dna list \<Rightarrow> nat list \<Rightarrow> scan_state \<Rightarrow> scan_state" where
  "scan_positions jtt cat_ref ps st = fold (scan_step jtt cat_ref) ps st"

definition scan :: "joined_map \<Rightarrow> Dna list \<Rightarrow> scan_state" where
  "scan jtt cat_ref = scan_positions jtt cat_ref [0..<length cat_ref] scan_init"

text \<open>The records handed to \<^verbatim>\<open>print_fasta_record\<close> by a whole run: those of the loop, then
  the one of the final \<^verbatim>\<open>if (curr_ref < refnames->size())\<close>; \<open>nrefs\<close> is
  \<^verbatim>\<open>refnames->size()\<close>.\<close>

definition emitted_records :: "nat \<Rightarrow> joined_map \<Rightarrow> Dna list \<Rightarrow> (u32 \<times> string) list" where
  "emitted_records nrefs jtt cat_ref =
     (let st = scan jtt cat_ref in
      if unat (curr_ref st) < nrefs then
        calls st @ [(curr_ref st, add_trailing_gaps (tlen st) (curr_ref_seq st))]
      else calls st)"

section \<open>Output\<close>

text \<open>What can go wrong without the program noticing: \<^verbatim>\<open>(*refnames)[i]\<close> is
  \<^verbatim>\<open>std::vector::operator[]\<close>, which does not check \<open>i\<close>; a read at or beyond
  \<^verbatim>\<open>size()\<close> has no defined result, and the model stops there.\<close>

datatype error = Refnames_Out_Of_Range nat

text \<open>Conversion of the \<^verbatim>\<open>int across\<close> to \<^verbatim>\<open>size_t\<close>, as \<^verbatim>\<open>i + across\<close> and
  \<^verbatim>\<open>seq.substr(i, across)\<close> perform it.\<close>

definition size_t_of_int :: "c_int \<Rightarrow> nat" where
  "size_t_of_int a = nat (sint a mod 2 ^ 64)"

text \<open>
  The \<^verbatim>\<open>while\<close> loop of \<^verbatim>\<open>print_fasta_record\<close>; \<open>w\<close> is \<^verbatim>\<open>across\<close> as a
  \<^verbatim>\<open>size_t\<close>. With \<open>w = 0\<close> and a non-empty \<open>seq\<close> the loop does not end, which is the
  value \<open>None\<close>. \<^verbatim>\<open>seq.substr(i, across)\<close> cannot throw: \<open>i\<close> is \<open>0\<close> or has just been
  found below \<^verbatim>\<open>seq.length()\<close>.
\<close>

partial_function (option) fasta_while ::
    "nat \<Rightarrow> string \<Rightarrow> nat \<Rightarrow> string list \<Rightarrow> (nat \<times> string list) option" where
  "fasta_while w seq i fout =
     (if (i + w) mod 2 ^ 64 < length seq then
        fasta_while w seq ((i + w) mod 2 ^ 64) (fout @ [take w (drop i seq)])
      else Some (i, fout))"

declare fasta_while.simps [code]

definition print_fasta_record ::
    "c_int \<Rightarrow> string list \<Rightarrow> string \<Rightarrow> string \<Rightarrow> string list option" where
  "print_fasta_record across fout defline seq =
     (case fasta_while (size_t_of_int across) seq 0 (fout @ [''>'' @ defline]) of
        None \<Rightarrow> None
      | Some (i, fout1) \<Rightarrow>
          Some (if i < length seq then fout1 @ [drop i seq] else fout1))"

text \<open>The calls of \<^verbatim>\<open>print_fasta_record\<close> that \<^verbatim>\<open>print_index_sequences\<close> makes, each
  with the label \<^verbatim>\<open>(*refnames)[curr_ref]\<close>.\<close>

fun print_records ::
    "c_int \<Rightarrow> string list \<Rightarrow> (u32 \<times> string) list \<Rightarrow> string list
       \<Rightarrow> (error + string list) option" where
  "print_records across names [] fout = Some (Inr fout)"
| "print_records across names ((r, s) # rest) fout =
     (if unat r < length names then
        (case print_fasta_record across fout (names ! unat r) s of
           None \<Rightarrow> None
         | Some fout1 \<Rightarrow> print_records across names rest fout1)
      else Some (Inl (Refnames_Out_Of_Range (unat r))))"

definition print_index_sequences ::
    "c_int \<Rightarrow> string list \<Rightarrow> ebwt \<Rightarrow> (error + string list) option" where
  "print_index_sequences across fout e =
     print_records across (refnames e)
       (emitted_records (length (refnames e)) (joinedToTextOff e) (restore e)) fout"

text \<open>The loop bound \<^verbatim>\<open>p_refnames->size() - 1\<close> of \<^verbatim>\<open>print_index_sequence_names\<close>: a
  \<^verbatim>\<open>size_t\<close> subtraction, for a vector of \<open>n\<close> entries.\<close>

definition size_minus_one :: "nat \<Rightarrow> nat" where
  "size_minus_one n = (n + 2 ^ 64 - 1) mod 2 ^ 64"

text \<open>
  The loop of \<^verbatim>\<open>print_index_sequence_names\<close>. The state is the list of the indices at
  which \<^verbatim>\<open>(*p_refnames)[i]\<close> has been read so far, and the output.
  (\<^verbatim>\<open>p_refnames\<close> is the address of a reference and never null.)
\<close>

function names_loop ::
    "string list \<Rightarrow> nat \<Rightarrow> nat list \<times> string list \<Rightarrow> error + nat list \<times> string list" where
  "names_loop names i (reads, fout) =
     (if i < size_minus_one (length names) then
        (if i < length names then
           names_loop names (i + 1) (reads @ [i], fout @ [names ! i])
         else Inl (Refnames_Out_Of_Range i))
      else Inr (reads, fout))"
  by pat_completeness auto
termination
  by (relation "measure (\<lambda>(names, i, st). size_minus_one (length names) - i)") auto

definition print_index_sequence_names :: "string list \<Rightarrow> ebwt \<Rightarrow> error + string list" where
  "print_index_sequence_names fout e =
     (case names_loop (refnames e) 0 ([], fout) of
        Inl x \<Rightarrow> Inl x
      | Inr (reads, fout1) \<Rightarrow> Inr fout1)"

text \<open>\<^verbatim>\<open>driver\<close>, after the index has been loaded; it writes to \<^verbatim>\<open>cout\<close>.\<close>

definition driver :: "bool \<Rightarrow> c_int \<Rightarrow> ebwt \<Rightarrow> string list \<Rightarrow> (error + string list) option" where
  "driver names_only across e cout =
     (if names_only then Some (print_index_sequence_names cout e)
      else print_index_sequences across cout e)"

section \<open>The command line\<close>

text \<open>The two streams, as lists of lines.\<close>

record io =
  cout :: "string list"
  cerr :: "string list"

text \<open>The file's static variables.\<close>

record globals =
  g_showVersion :: bool
  g_verbose :: bool
  g_names_only :: bool
  g_across :: c_int

definition globals_init :: globals where
  "globals_init = \<lparr>g_showVersion = False, g_verbose = False, g_names_only = False,
                    g_across = 60\<rparr>"

definition printUsage :: "string list" where
  "printUsage =
     [''Usage: bowtie-inspect [options]* <ebwt_base>'',
      ''  <ebwt_base>        ebwt filename minus trailing .1.ebwt/.2.ebwt'',
      ''Options:'',
      ''  -a/--across        number of characters across in FASTA output (default: 60)'',
      ''  -n/--names         Print reference sequence names only'',
      ''  -v/--verbose       verbose output (for debugging)'',
      ''  -h/--help          print detailed description of tool and its options'']"

definition printLongUsage :: "string list" where
  "printLongUsage = [[], ''LONG USAGE TODO'', []]"

text \<open>
  \<^verbatim>\<open>getopt_long\<close> and \<^verbatim>\<open>strtol\<close> belong to the C library, so one call of
  \<^verbatim>\<open>getopt_long\<close> is given by what it returns, together with what
  \<^verbatim>\<open>strtol(optarg, &endPtr, 10)\<close> yields for the \<^verbatim>\<open>optarg\<close> it sets: the \<^verbatim>\<open>long\<close> and
  whether \<^verbatim>\<open>endPtr\<close> is left null. \<^verbatim>\<open>exit(n)\<close> is \<open>Inl\<close> of the status and the streams.
\<close>

record getopt_ret =
  next_option :: int
  strtol_optarg :: c_long
  endPtr_null :: bool

definition parseInt :: "c_int \<Rightarrow> string \<Rightarrow> getopt_ret \<Rightarrow> io \<Rightarrow> int \<times> io + c_int" where
  "parseInt lower errmsg r s =
     (if \<not> endPtr_null r then
        (if sint (strtol_optarg r) < sint lower then
           Inl (1, s\<lparr>cerr := cerr s @ errmsg # printUsage\<rparr>)
         else Inr (scast (strtol_optarg r)))
      else Inl (1, s\<lparr>cerr := cerr s @ errmsg # printUsage\<rparr>))"

text \<open>
  \<^verbatim>\<open>parseOptions\<close> over the successive returns of \<^verbatim>\<open>getopt_long\<close>; at the end of the
  list \<^verbatim>\<open>getopt_long\<close> returns \<open>-1\<close>. The codes are those of
  \<^verbatim>\<open>'h'\<close>, \<^verbatim>\<open>'?'\<close>, \<^verbatim>\<open>'v'\<close>, \<^verbatim>\<open>'n'\<close> and \<^verbatim>\<open>'a'\<close>. No entry of
  \<^verbatim>\<open>long_options\<close> has a \<^verbatim>\<open>flag\<close>, so \<^verbatim>\<open>case 0\<close> falls through to \<^verbatim>\<open>default\<close>.
\<close>

fun parseOptions :: "getopt_ret list \<Rightarrow> globals \<Rightarrow> io \<Rightarrow> int \<times> io + globals" where
  "parseOptions [] g s = Inr g"
| "parseOptions (r # rest) g s =
     (if next_option r = 104 then Inl (0, s\<lparr>cout := cout s @ printLongUsage\<rparr>)
      else if next_option r = 63 then Inl (1, s\<lparr>cerr := cerr s @ printUsage\<rparr>)
      else if next_option r = 118 then parseOptions rest (g\<lparr>g_verbose := True\<rparr>) s
      else if next_option r = 110 then parseOptions rest (g\<lparr>g_names_only := True\<rparr>) s
      else if next_option r = 97 then
        (case parseInt 1 ''-a/--across arg must be at least 1'' r s of
           Inl x \<Rightarrow> Inl x
         | Inr n \<Rightarrow> parseOptions rest (g\<lparr>g_across := n\<rparr>) s)
      else if next_option r = - 1 then Inr g
      else Inl (1, s\<lparr>cerr := cerr s
                      @ (''Unknown option: '' @ [char_of (next_option r)]) # printUsage\<rparr>))"

text \<open>
  What \<^verbatim>\<open>main\<close> takes from outside this file: the version banner (built from macros),
  \<^verbatim>\<open>currentlyBigEndian()\<close> and whether \<^verbatim>\<open>NDEBUG\<close> is defined.
\<close>

record platform =
  version_banner :: "string list"
  big_endian :: bool
  ndebug :: bool

definition verbose_summary :: "platform \<Rightarrow> string \<Rightarrow> string list" where
  "verbose_summary pf ebwtFile =
     [''Input ebwt file: '' @ [CHR 0x22] @ ebwtFile @ [CHR 0x22],
      ''Output file: '' @ [CHR 0x22] @ [CHR 0x22],
      ''Local endianness: '' @ (if big_endian pf then ''big'' else ''little''),
      (if ndebug pf then ''Assertions: disabled'' else ''Assertions: enabled'')]"

text \<open>
  \<^verbatim>\<open>main\<close>: \<open>rets\<close> are the returns of \<^verbatim>\<open>getopt_long\<close>, \<open>arg\<close> is \<^verbatim>\<open>argv[optind]\<close> when
  \<^verbatim>\<open>optind < argc\<close>, and \<open>e\<close> is the index that the \<^verbatim>\<open>Ebwt\<close> constructor and
  \<^verbatim>\<open>loadIntoMemory\<close> (both in \<^verbatim>\<open>ebwt.h\<close>) give for it. The result is the exit status
  and the two streams.
\<close>

definition main ::
    "platform \<Rightarrow> getopt_ret list \<Rightarrow> string option \<Rightarrow> ebwt \<Rightarrow> (error + int \<times> io) option" where
  "main pf rets arg e =
     (case parseOptions rets globals_init \<lparr>cout = [], cerr = []\<rparr> of
        Inl x \<Rightarrow> Some (Inr x)
      | Inr g \<Rightarrow>
          if g_showVersion g then Some (Inr (0, \<lparr>cout = version_banner pf, cerr = []\<rparr>))
          else
            (case arg of
               None \<Rightarrow> Some (Inr (1, \<lparr>cout = [], cerr = ''No index name given!'' # printUsage\<rparr>))
             | Some ebwtFile \<Rightarrow>
                 (case driver (g_names_only g) (g_across g) e
                         (if g_verbose g then verbose_summary pf ebwtFile else []) of
                    None \<Rightarrow> None
                  | Some (Inl x) \<Rightarrow> Some (Inl x)
                  | Some (Inr out) \<Rightarrow> Some (Inr (0, \<lparr>cout = out, cerr = []\<rparr>)))))"

section \<open>Vocabulary of the properties\<close>

text \<open>A position is owned when the test \<^verbatim>\<open>tidx != 0xffffffff && textoff < tlen\<close> of the
  loop accepts what the mapping returns for it.\<close>

definition owned :: "u32 \<times> u32 \<times> u32 \<Rightarrow> bool" where
  "owned m = (case m of (tidx, textoff, tln) \<Rightarrow> tidx \<noteq> 0xffffffff \<and> textoff < tln)"

text \<open>The record identities of the owned positions among \<open>ps\<close>, in scan order.\<close>

definition owned_ids :: "joined_map \<Rightarrow> nat list \<Rightarrow> u32 list" where
  "owned_ids jtt ps = map (\<lambda>i. fst (jtt i)) (filter (\<lambda>i. owned (jtt i)) ps)"

text \<open>The record being accumulated, if there is one.\<close>

definition open_ref :: "scan_state \<Rightarrow> u32 list" where
  "open_ref st = (if curr_ref st = 0xffffffff then [] else [curr_ref st])"

text \<open>The elements of a list in the order of their first occurrences.\<close>

fun first_seen :: "'a list \<Rightarrow> 'a list" where
  "first_seen [] = []"
| "first_seen (x # xs) = x # filter (\<lambda>y. y \<noteq> x) (first_seen xs)"

text \<open>A return of \<^verbatim>\<open>getopt_long\<close> after which \<^verbatim>\<open>parseOptions\<close> goes on to the next one:
  \<^verbatim>\<open>-v\<close>, \<^verbatim>\<open>-n\<close>, or \<^verbatim>\<open>-a\<close> with an argument that \<^verbatim>\<open>parseInt\<close> accepts.\<close>

definition benign :: "getopt_ret \<Rightarrow> bool" where
  "benign r = (next_option r = 118 \<or> next_option r = 110
               \<or> (next_option r = 97 \<and> endPtr_null r = False \<and> 1 \<le> sint (strtol_optarg r)))"

section \<open>Concrete indexes\<close>

text \<open>Two records of lengths 2 and 4 with every position indexed; the joined text has six
  positions.\<close>

definition two_full_records :: joined_map where
  "two_full_records i = (if i < 2 then (0, of_nat i, 2) else (1, of_nat i - 2, 4))"

text \<open>One record of length 3 whose offsets 0 and 2 are indexed; two joined positions.\<close>

definition gap_after_zero :: joined_map where
  "gap_after_zero i = (if i = 0 then (0, 0, 3) else (0, 2, 3))"

text \<open>One record of length 20 whose offsets 0, 1, 2, 7, 8 and 15 are indexed; six joined
  positions.\<close>

definition six_of_twenty :: joined_map where
  "six_of_twenty i = (0, [0, 1, 2, 7, 8, 15] ! i, 20)"

text \<open>A record of length 5 whose offsets 0, 1, 2 are indexed, followed by a record of
  length 3 with every offset indexed.\<close>

definition unindexed_tail :: joined_map where
  "unindexed_tail i = (if i < 3 then (0, of_nat i, 5) else (1, of_nat i - 3, 3))"

text \<open>A mapping that returns to record 0 after record 1: positions 0 and 2 belong to
  record 0 (length 2), position 1 to record 1 (length 1).\<close>

definition interleaved_records :: joined_map where
  "interleaved_records i = (if i = 1 then (1, 0, 1) else (0, if i = 0 then 0 else 1, 2))"

text \<open>One record of length 3 over four joined positions, the position 1 reported with
  the offset 7.\<close>

definition offset_beyond_length :: joined_map where
  "offset_beyond_length i =
     (if i = 0 then (0, 0, 3) else if i = 1 then (0, 7, 3) else (0, of_nat i - 1, 3))"

text \<open>A mapping that leaves its three results untouched at every position.\<close>

definition nothing_owned :: joined_map where
  "nothing_owned i = (0xffffffff, 0xffffffff, 0xffffffff)"

text \<open>A fully indexed record of length 3 followed by one position reported as record 1,
  offset 9, length 5.\<close>

definition rejected_last :: joined_map where
  "rejected_last i = (if i < 3 then (0, of_nat i, 3) else (1, 9, 5))"

definition rejected_last_index :: ebwt where
  "rejected_last_index =
     \<lparr>refnames = [''chr1'', ''chr2''], joinedToTextOff = rejected_last,
      restore = [A, C, G, T]\<rparr>"

text \<open>An index without its joined position \<open>i\<close>: the mapping and the text of the positions
  after it move down by one.\<close>

definition delete_position :: "nat \<Rightarrow> joined_map \<Rightarrow> joined_map" where
  "delete_position i jtt = (\<lambda>j. jtt (if j < i then j else j + 1))"

definition delete_nth :: "nat \<Rightarrow> 'a list \<Rightarrow> 'a list" where
  "delete_nth i xs = take i xs @ drop (Suc i) xs"

definition gap_index :: ebwt where
  "gap_index = \<lparr>refnames = [''chr1''], joinedToTextOff = gap_after_zero, restore = [A, C]\<rparr>"

definition tail_index :: ebwt where
  "tail_index =
     \<lparr>refnames = [''chr1'', ''chr2''], joinedToTextOff = unindexed_tail,
      restore = [A, C, G, T, A, C]\<rparr>"

definition two_names_index :: ebwt where
  "two_names_index =
     \<lparr>refnames = [''chr1'', ''chr2''], joinedToTextOff = two_full_records,
      restore = [A, C, G, T, A, C]\<rparr>"

definition little_endian_release :: platform where
  "little_endian_release = \<lparr>version_banner = [], big_endian = False, ndebug = True\<rparr>"

definition opt_names :: getopt_ret where
  "opt_names = \<lparr>next_option = 110, strtol_optarg = 0, endPtr_null = False\<rparr>"

definition opt_verbose :: getopt_ret where
  "opt_verbose = \<lparr>next_option = 118, strtol_optarg = 0, endPtr_null = False\<rparr>"

definition opt_across :: "c_long \<Rightarrow> getopt_ret" where
  "opt_across l = \<lparr>next_option = 97, strtol_optarg = l, endPtr_null = False\<rparr>"

section \<open>Evaluation\<close>

lemma replicate_numeral: "replicate (numeral k) x = x # replicate (pred_numeral k) x"
  by (simp add: numeral_eq_Suc)

lemmas scan_eval =
  emitted_records_def scan_def scan_positions_def scan_step_def scan_init_def
  add_trailing_gaps_def upt_rec replicate_numeral

lemmas print_eval =
  print_index_sequences_def print_fasta_record_def size_t_of_int_def fasta_while.simps

section \<open>The scan and the owned positions\<close>

lemma scan_step_unowned:
  "\<not> owned (jtt i) \<Longrightarrow> scan_step jtt cr i st = st\<lparr>tlen := snd (snd (jtt i))\<rparr>"
  by (auto simp: scan_step_def owned_def split: prod.splits)

lemma scan_step_owned_curr_ref:
  "owned (jtt i) \<Longrightarrow> curr_ref (scan_step jtt cr i st) = fst (jtt i)"
  by (auto simp: scan_step_def owned_def Let_def split: prod.splits)

lemma scan_step_owned_calls:
  "owned (jtt i) \<Longrightarrow> calls (scan_step jtt cr i st) =
     (if curr_ref st \<noteq> fst (jtt i) \<and> curr_ref st \<noteq> 0xffffffff
      then calls st @ [(curr_ref st, add_trailing_gaps (snd (snd (jtt i))) (curr_ref_seq st))]
      else calls st)"
  by (auto simp: scan_step_def owned_def Let_def split: prod.splits)

lemma owned_not_sentinel: "owned (jtt i) \<Longrightarrow> fst (jtt i) \<noteq> 0xffffffff"
  by (auto simp: owned_def split: prod.splits)

lemma owned_ids_Cons: "owned_ids jtt (i # ps) = owned_ids jtt [i] @ owned_ids jtt ps"
  by (simp add: owned_ids_def)

lemma owned_ids_single_cases:
  "owned_ids jtt [i] = (if owned (jtt i) then [fst (jtt i)] else [])"
  by (simp add: owned_ids_def)

lemma set_owned_ids:
  "r \<in> set (owned_ids jtt ps) \<longleftrightarrow> (\<exists>i \<in> set ps. owned (jtt i) \<and> fst (jtt i) = r)"
  by (auto simp: owned_ids_def)

text \<open>The identities of the records closed so far, followed by the open one, are the owned
  identities seen so far with adjacent repetitions merged.\<close>

lemma scan_positions_ids:
  "map fst (calls (scan_positions jtt cr ps st)) @ open_ref (scan_positions jtt cr ps st) =
     map fst (calls st) @ remdups_adj (open_ref st @ owned_ids jtt ps)"
proof (induction ps arbitrary: st)
  case Nil
  show ?case by (simp add: scan_positions_def owned_ids_def open_ref_def)
next
  case (Cons i ps)
  have "map fst (calls (scan_positions jtt cr (i # ps) st))
          @ open_ref (scan_positions jtt cr (i # ps) st)
        = map fst (calls (scan_step jtt cr i st))
          @ remdups_adj (open_ref (scan_step jtt cr i st) @ owned_ids jtt ps)"
    using Cons.IH [of "scan_step jtt cr i st"] by (simp add: scan_positions_def)
  also have "\<dots> = map fst (calls st) @ remdups_adj (open_ref st @ owned_ids jtt (i # ps))"
  proof (cases "owned (jtt i)")
    case True
    then show ?thesis
      using True owned_not_sentinel [of jtt i]
      by (simp add: scan_step_owned_calls scan_step_owned_curr_ref open_ref_def
          owned_ids_Cons [of jtt i ps] owned_ids_single_cases)
  next
    case False
    then show ?thesis
      by (simp add: scan_step_unowned open_ref_def owned_ids_Cons [of jtt i ps]
          owned_ids_single_cases)
  qed
  finally show ?case .
qed

lemma scan_ids:
  "map fst (calls (scan jtt cr)) @ open_ref (scan jtt cr)
     = remdups_adj (owned_ids jtt [0..<length cr])"
  using scan_positions_ids [of jtt cr "[0..<length cr]" scan_init]
  by (simp add: scan_def scan_init_def open_ref_def)

text \<open>With fewer than \<open>2 ^ 32\<close> labels the final test \<^verbatim>\<open>curr_ref < refnames->size()\<close>
  fails for \<^verbatim>\<open>0xffffffff\<close>, so the run emits the merged owned identities, or all of them
  but the last when that one does not index \<^verbatim>\<open>refnames\<close>.\<close>

lemma emitted_ids_cases:
  assumes "nrefs \<le> 4294967295"
  shows "map fst (emitted_records nrefs jtt cr) = remdups_adj (owned_ids jtt [0..<length cr])
         \<or> (map fst (emitted_records nrefs jtt cr) @ [curr_ref (scan jtt cr)]
               = remdups_adj (owned_ids jtt [0..<length cr])
             \<and> \<not> unat (curr_ref (scan jtt cr)) < nrefs)"
proof (cases "curr_ref (scan jtt cr) = 0xffffffff")
  case True
  then have "\<not> unat (curr_ref (scan jtt cr)) < nrefs" using assms by simp
  then show ?thesis using True scan_ids [of jtt cr]
    by (simp add: emitted_records_def open_ref_def Let_def)
next
  case False
  then show ?thesis using scan_ids [of jtt cr]
    by (auto simp: emitted_records_def open_ref_def Let_def)
qed

lemma remdups_adj_Cons_head: "\<exists>r. remdups_adj (y # xs) = y # r"
  by (induction xs) auto

lemma first_seen_remdups_adj:
  "distinct (remdups_adj xs) \<Longrightarrow> first_seen xs = remdups_adj xs"
proof (induction xs rule: remdups_adj.induct)
  case 1
  show ?case by simp
next
  case (2 x)
  show ?case by simp
next
  case (3 x y xs)
  show ?case
  proof (cases "x = y")
    case True
    from remdups_adj_Cons_head [of y xs]
    obtain r where r: "remdups_adj (y # xs) = y # r" ..
    from 3 True have ih: "first_seen (y # xs) = remdups_adj (y # xs)" by simp
    from 3 True r have "y \<notin> set r" by simp
    then have "filter (\<lambda>z. z \<noteq> y) r = r" by (intro filter_True) auto
    then have f: "filter (\<lambda>z. z \<noteq> y) (y # r) = r" by simp
    have "first_seen (y # y # xs) = y # filter (\<lambda>z. z \<noteq> y) (first_seen (y # xs))"
      by (rule first_seen.simps(2))
    also have "\<dots> = y # r" using ih r f by (simp only:)
    finally have fs: "first_seen (y # y # xs) = y # r" .
    have "remdups_adj (x # y # xs) = y # r" using True r by simp
    with fs True show ?thesis by (simp only:)
  next
    case False
    with 3 have d: "distinct (remdups_adj (y # xs))" and nx: "x \<notin> set (y # xs)"
      by auto
    from 3 False d have ih: "first_seen (y # xs) = remdups_adj (y # xs)" by simp
    have "filter (\<lambda>z. z \<noteq> x) (remdups_adj (y # xs)) = remdups_adj (y # xs)"
      using nx by (intro filter_True) (auto simp del: remdups_adj.simps)
    with ih False show ?thesis
      by (simp del: remdups_adj.simps(3) first_seen.simps(2)
          add: first_seen.simps(2) [of x "y # xs"] remdups_adj.simps(3) [of x y xs])
  qed
qed

section \<open>Lengths of the emitted records\<close>

text \<open>
  C1. Every record that \<^verbatim>\<open>print_index_sequences\<close> emits should have as many characters as
  its declared length. The code does not keep this: in the index \<open>two_full_records\<close>
  (record 0 of length 2, record 1 of length 4, every position indexed) record 0 is closed
  when the first position of record 1 is met, and is padded to the length the mapping has
  just returned for record 1. It is emitted with four characters.
\<close>

theorem length_invariant_broken:
  "emitted_records 2 two_full_records [A, C, G, T, A, C] = [(0, ''ACNN''), (1, ''GTAC'')]
   \<and> two_full_records 0 = (0, 0, 2)
   \<and> length (snd (emitted_records 2 two_full_records [A, C, G, T, A, C] ! 0)) = 4
   \<and> print_index_sequences 60 [] two_names_index
         = Some (Inr [''>chr1'', ''ACNN'', ''>chr2'', ''GTAC''])"
proof -
  have e: "emitted_records 2 two_full_records [A, C, G, T, A, C]
             = [(0, ''ACNN''), (1, ''GTAC'')]"
    by (simp add: scan_eval two_full_records_def)
  have "print_index_sequences 60 [] two_names_index
          = Some (Inr [''>chr1'', ''ACNN'', ''>chr2'', ''GTAC''])"
    using e [unfolded numeral_2_eq_2] by (simp add: print_eval two_names_index_def)
  then show ?thesis using e by (simp add: two_full_records_def)
qed

section \<open>Gaps inside a record\<close>

text \<open>
  C2. Between two owned offsets of a record the scan should insert
  \<open>offset - last_offset - 1\<close> gap characters. In \<open>gap_after_zero\<close> (length 3, offsets 0 and
  2 indexed) the code inserts two: \<^verbatim>\<open>last_text_off\<close> is 0 after offset 0, and
  \<^verbatim>\<open>(last_text_off ? 1 : 0)\<close> then subtracts nothing. The record comes out with four
  characters instead of \<open>''ANC''\<close>.
\<close>

theorem gap_after_offset_zero:
  "emitted_records 1 gap_after_zero [A, C] = [(0, ''ANNC'')]
   \<and> gap_after_zero 0 = (0, 0, 3) \<and> gap_after_zero 1 = (0, 2, 3)
   \<and> print_index_sequences 60 [] gap_index = Some (Inr [''>chr1'', ''ANNC''])"
proof -
  have e: "emitted_records 1 gap_after_zero [A, C] = [(0, ''ANNC'')]"
    by (simp add: scan_eval gap_after_zero_def)
  have "print_index_sequences 60 [] gap_index = Some (Inr [''>chr1'', ''ANNC''])"
    using e by (simp add: print_eval gap_index_def)
  then show ?thesis using e by (simp add: gap_after_zero_def)
qed

text \<open>When no gap follows offset 0 the count is right: the record of length 20 with the
  offsets 0, 1, 2, 7, 8, 15, alone in its index (so that the padding after the loop uses
  its own length), gets its six characters at these offsets and 14 gap characters.\<close>

lemma six_of_twenty_gaps:
  "emitted_records 1 six_of_twenty [A, C, G, T, A, C] = [(0, ''ACGNNNNTANNNNNNCNNNN'')]"
  by (simp add: scan_eval six_of_twenty_def)

section \<open>Closing a record\<close>

text \<open>
  C3. A record closed because another record begins should be padded to its own declared
  length. The code pads with the \<^verbatim>\<open>tlen\<close> that \<^verbatim>\<open>joinedToTextOff\<close> has just returned for
  the position of the next record. In \<open>unindexed_tail\<close> record 0 has length 5 and its last
  two offsets are not indexed; record 1 has length 3, so record 0 is emitted with three
  characters instead of \<open>''ACGNN''\<close>.
\<close>

theorem closing_pads_to_next_length:
  "emitted_records 2 unindexed_tail [A, C, G, T, A, C] = [(0, ''ACG''), (1, ''TAC'')]
   \<and> unindexed_tail 2 = (0, 2, 5) \<and> unindexed_tail 3 = (1, 0, 3)
   \<and> print_index_sequences 60 [] tail_index
         = Some (Inr [''>chr1'', ''ACG'', ''>chr2'', ''TAC''])"
proof -
  have e: "emitted_records 2 unindexed_tail [A, C, G, T, A, C] = [(0, ''ACG''), (1, ''TAC'')]"
    by (simp add: scan_eval unindexed_tail_def)
  have "print_index_sequences 60 [] tail_index
          = Some (Inr [''>chr1'', ''ACG'', ''>chr2'', ''TAC''])"
    using e [unfolded numeral_2_eq_2] by (simp add: print_eval tail_index_def)
  then show ?thesis using e by (simp add: unindexed_tail_def)
qed

section \<open>Order of the emitted records\<close>

text \<open>
  C5, as stated for every mapping, fails: the scan remembers only the record it is
  accumulating, so a mapping that comes back to record 0 after record 1 makes it open and
  emit record 0 a second time.
\<close>

theorem never_reopened_counterexample:
  "emitted_records 2 interleaved_records [A, C, G] = [(0, ''A''), (1, ''CN''), (0, ''GN'')]
   \<and> \<not> distinct (map fst (emitted_records 2 interleaved_records [A, C, G]))"
  by (simp add: scan_eval interleaved_records_def)

text \<open>
  C5, amended. When the collection has fewer than \<open>2 ^ 32\<close> labels and every owned
  identity indexes it, the identities of the emitted records are the owned identities of
  the scan with adjacent repetitions merged. When, moreover, no identity comes back after
  another one (the merged list has no repetition), the records are emitted in the order
  of their first owned positions and none is emitted twice.
\<close>

theorem emitted_order:
  assumes "nrefs \<le> 4294967295"
    and "\<forall>i < length cr. owned (jtt i) \<longrightarrow> unat (fst (jtt i)) < nrefs"
  shows "map fst (emitted_records nrefs jtt cr) = remdups_adj (owned_ids jtt [0..<length cr])
         \<and> (distinct (remdups_adj (owned_ids jtt [0..<length cr])) \<longrightarrow>
              map fst (emitted_records nrefs jtt cr) = first_seen (owned_ids jtt [0..<length cr])
              \<and> distinct (map fst (emitted_records nrefs jtt cr)))"
proof -
  let ?ids = "owned_ids jtt [0..<length cr]"
  have eq: "map fst (emitted_records nrefs jtt cr) = remdups_adj ?ids"
  proof (rule disjE [OF emitted_ids_cases [OF assms(1), of jtt cr]])
    assume "map fst (emitted_records nrefs jtt cr) = remdups_adj ?ids"
    then show ?thesis .
  next
    assume a: "map fst (emitted_records nrefs jtt cr) @ [curr_ref (scan jtt cr)]
                 = remdups_adj ?ids \<and> \<not> unat (curr_ref (scan jtt cr)) < nrefs"
    then have "curr_ref (scan jtt cr) \<in> set (remdups_adj ?ids)"
      by (metis in_set_conv_decomp)
    then have "curr_ref (scan jtt cr) \<in> set ?ids" by simp
    then obtain i where "i < length cr" "owned (jtt i)" "fst (jtt i) = curr_ref (scan jtt cr)"
      by (auto simp: set_owned_ids)
    then have "unat (curr_ref (scan jtt cr)) < nrefs" using assms(2) by auto
    with a show ?thesis by simp
  qed
  then show ?thesis by (simp add: first_seen_remdups_adj)
qed

lemma owned_ids_two_full_records:
  "owned_ids two_full_records [0..<6] = [0, 0, 1, 1, 1, 1]"
  by (simp add: owned_ids_def owned_def two_full_records_def upt_rec)

theorem emitted_order_witness:
  "(2::nat) \<le> 4294967295
   \<and> list_all (\<lambda>i. unat (fst (two_full_records i)) < 2) [0..<length [A, C, G, T, A, C]]
   \<and> map fst (emitted_records 2 two_full_records [A, C, G, T, A, C]) = [0, 1]
   \<and> first_seen (owned_ids two_full_records [0..<6]) = [0, 1]"
proof -
  have h: "\<forall>i < length [A, C, G, T, A, C].
         owned (two_full_records i) \<longrightarrow> unat (fst (two_full_records i)) < 2"
    by (simp add: two_full_records_def)
  have n: "(2::nat) \<le> 4294967295" by simp
  have l: "length [A, C, G, T, A, C] = 6" by simp
  have "list_all (\<lambda>i. unat (fst (two_full_records i)) < 2) [0..<length [A, C, G, T, A, C]]"
    by (simp add: two_full_records_def upt_rec)
  then show ?thesis
    using emitted_order [OF n h, unfolded l owned_ids_two_full_records]
    by (simp add: owned_ids_two_full_records)
qed

section \<open>Records that are never emitted\<close>

text \<open>
  C9. Every emitted record has an owned position in the scan, at which the mapping
  reports a length other than 0; so a record of declared length 0, or one without an
  owned position, is never emitted, and a scan without any owned position emits nothing.
  The collection is taken to have fewer than \<open>2 ^ 32\<close> labels, the range that
  \<^verbatim>\<open>uint32_t curr_ref\<close> with its marker \<^verbatim>\<open>0xffffffff\<close> can tell apart.
\<close>

theorem unowned_never_emitted:
  assumes "nrefs \<le> 4294967295"
  shows "(\<forall>(r, s) \<in> set (emitted_records nrefs jtt cr).
            \<exists>i < length cr. owned (jtt i) \<and> fst (jtt i) = r \<and> snd (snd (jtt i)) \<noteq> 0)
         \<and> ((\<forall>i < length cr. \<not> owned (jtt i)) \<longrightarrow> emitted_records nrefs jtt cr = [])"
proof -
  let ?ids = "owned_ids jtt [0..<length cr]"
  have sub: "set (map fst (emitted_records nrefs jtt cr)) \<subseteq> set ?ids"
  proof (rule disjE [OF emitted_ids_cases [OF assms, of jtt cr]])
    assume "map fst (emitted_records nrefs jtt cr) = remdups_adj ?ids"
    then show ?thesis by simp
  next
    assume "map fst (emitted_records nrefs jtt cr) @ [curr_ref (scan jtt cr)]
              = remdups_adj ?ids \<and> \<not> unat (curr_ref (scan jtt cr)) < nrefs"
    then have "set (map fst (emitted_records nrefs jtt cr) @ [curr_ref (scan jtt cr)])
                 = set ?ids"
      by (metis remdups_adj_set)
    then show ?thesis by auto
  qed
  have nz: "owned m \<Longrightarrow> snd (snd m) \<noteq> 0" for m
    by (auto simp: owned_def split: prod.splits)
  have one: "\<forall>(r, s) \<in> set (emitted_records nrefs jtt cr).
            \<exists>i < length cr. owned (jtt i) \<and> fst (jtt i) = r \<and> snd (snd (jtt i)) \<noteq> 0"
  proof (clarify)
    fix r s assume "(r, s) \<in> set (emitted_records nrefs jtt cr)"
    then have "r \<in> set (map fst (emitted_records nrefs jtt cr))" by force
    with sub have "r \<in> set ?ids" by blast
    then obtain i where "i < length cr" "owned (jtt i)" "fst (jtt i) = r"
      by (auto simp: set_owned_ids)
    then show "\<exists>i < length cr. owned (jtt i) \<and> fst (jtt i) = r \<and> snd (snd (jtt i)) \<noteq> 0"
      using nz by blast
  qed
  have two: "(\<forall>i < length cr. \<not> owned (jtt i)) \<longrightarrow> emitted_records nrefs jtt cr = []"
  proof
    assume "\<forall>i < length cr. \<not> owned (jtt i)"
    then have "?ids = []" by (auto simp: owned_ids_def filter_empty_conv)
    with sub show "emitted_records nrefs jtt cr = []" by simp
  qed
  from one two show ?thesis by blast
qed

theorem unowned_never_emitted_witness:
  "(1::nat) \<le> 4294967295
   \<and> list_all (\<lambda>i. \<not> owned (nothing_owned i)) [0..<length [A, C]]
   \<and> emitted_records 1 nothing_owned [A, C] = []
   \<and> (1, ''GTAC'') \<in> set (emitted_records 2 two_full_records [A, C, G, T, A, C])
   \<and> (\<exists>i < length [A, C, G, T, A, C]. owned (two_full_records i) \<and> fst (two_full_records i) = 1
         \<and> snd (snd (two_full_records i)) \<noteq> 0)"
proof -
  have n1: "(1::nat) \<le> 4294967295" and n2: "(2::nat) \<le> 4294967295" by simp_all
  have u: "\<forall>i < length [A, C]. \<not> owned (nothing_owned i)"
    by (simp add: owned_def nothing_owned_def)
  have m: "(1, ''GTAC'') \<in> set (emitted_records 2 two_full_records [A, C, G, T, A, C])"
    by (simp add: scan_eval two_full_records_def)
  have "emitted_records 1 nothing_owned [A, C] = []"
    using u unowned_never_emitted [OF n1, of nothing_owned "[A, C]"] by blast
  moreover have "\<exists>i < length [A, C, G, T, A, C]. owned (two_full_records i)
      \<and> fst (two_full_records i) = 1 \<and> snd (snd (two_full_records i)) \<noteq> 0"
    using m unowned_never_emitted [OF n2, of two_full_records "[A, C, G, T, A, C]"] by blast
  moreover have "list_all (\<lambda>i. \<not> owned (nothing_owned i)) [0..<length [A, C]]"
    by (simp add: owned_def nothing_owned_def upt_rec)
  ultimately show ?thesis using m by simp
qed

section \<open>Offsets outside the record\<close>

text \<open>No step reads the local \<^verbatim>\<open>tlen\<close> of the state it starts from, and every step
  overwrites it.\<close>

lemma scan_step_forgets_tlen:
  "scan_step jtt cr j (st\<lparr>tlen := x\<rparr>) = scan_step jtt cr j st"
  by (simp add: scan_step_def Let_def split: prod.splits)

lemma scan_positions_forgets_tlen:
  "ps \<noteq> [] \<Longrightarrow> scan_positions jtt cr ps (st\<lparr>tlen := x\<rparr>) = scan_positions jtt cr ps st"
  by (cases ps) (simp_all add: scan_positions_def scan_step_forgets_tlen)

lemma scan_positions_append:
  "scan_positions jtt cr (ps @ qs) st = scan_positions jtt cr qs (scan_positions jtt cr ps st)"
  by (simp add: scan_positions_def)

lemma scan_positions_cong:
  "(\<And>j st. j \<in> set ps \<Longrightarrow> scan_step jtt cr j st = scan_step jtt' cr' (g j) st)
     \<Longrightarrow> scan_positions jtt cr ps st = scan_positions jtt' cr' (map g ps) st"
  by (induction ps arbitrary: st) (simp_all add: scan_positions_def)

lemma scan_step_same:
  "jtt j = jtt' k \<Longrightarrow> cr ! j = cr' ! k \<Longrightarrow> scan_step jtt cr j st = scan_step jtt' cr' k st"
  by (cases "jtt' k") (simp add: scan_step_def)

lemma rejected_then_more:
  assumes "\<not> owned (jtt i)" and "ps \<noteq> []"
  shows "scan_positions jtt cr (i # ps) st = scan_positions jtt cr ps st"
proof -
  have "scan_positions jtt cr (i # ps) st
          = scan_positions jtt cr ps (scan_step jtt cr i st)"
    by (simp add: scan_positions_def)
  also have "\<dots> = scan_positions jtt cr ps (st\<lparr>tlen := snd (snd (jtt i))\<rparr>)"
    using assms(1) by (simp add: scan_step_unowned)
  also have "\<dots> = scan_positions jtt cr ps st"
    using assms(2) by (rule scan_positions_forgets_tlen)
  finally show ?thesis .
qed

lemma scan_delete_position:
  assumes u: "\<not> owned (jtt i)" and later: "i + 1 < length cr"
  shows "scan jtt cr = scan (delete_position i jtt) (delete_nth i cr)"
proof -
  let ?n = "length cr"
  let ?jtt = "delete_position i jtt" and ?cr = "delete_nth i cr"
  have len: "length ?cr = ?n - 1" using later by (simp add: delete_nth_def)
  have split: "[0..<?n] = [0..<i] @ i # [i + 1..<?n]"
  proof -
    have "[0..<i + (?n - i)] = [0..<i] @ [i..<i + (?n - i)]" by (rule upt_add_eq_append) simp
    moreover have "i + (?n - i) = ?n" using later by simp
    moreover have "[i..<?n] = i # [i + 1..<?n]" using later by (simp add: upt_conv_Cons)
    ultimately show ?thesis by simp
  qed
  have split': "[0..<?n - 1] = [0..<i] @ [i..<?n - 1]"
  proof -
    have "[0..<i + (?n - 1 - i)] = [0..<i] @ [i..<i + (?n - 1 - i)]"
      by (rule upt_add_eq_append) simp
    moreover have "i + (?n - 1 - i) = ?n - 1" using later by simp
    ultimately show ?thesis by simp
  qed
  have shift: "[i + 1..<?n] = map Suc [i..<?n - 1]"
  proof -
    have "map Suc [i..<?n - 1] = [Suc i..<Suc (?n - 1)]" by (rule map_Suc_upt)
    moreover have "Suc (?n - 1) = ?n" using later by (cases cr) simp_all
    ultimately have "map Suc [i..<?n - 1] = [Suc i..<?n]" by (simp only:)
    then show ?thesis by simp
  qed
  have ne: "[i + 1..<?n] \<noteq> []" using later by auto
  have before: "scan_positions jtt cr [0..<i] st = scan_positions ?jtt ?cr [0..<i] st" for st
  proof -
    have "scan_positions jtt cr [0..<i] st = scan_positions ?jtt ?cr (map id [0..<i]) st"
    proof (rule scan_positions_cong)
      fix j st assume "j \<in> set [0..<i]"
      then have j: "j < i" by simp
      have "jtt j = ?jtt j" using j by (simp add: delete_position_def)
      moreover have "cr ! j = ?cr ! j" using j later by (simp add: delete_nth_def nth_append)
      ultimately show "scan_step jtt cr j st = scan_step ?jtt ?cr (id j) st"
        using scan_step_same [of jtt j ?jtt j cr ?cr st] by simp
    qed
    then show ?thesis by simp
  qed
  have after: "scan_positions jtt cr [i + 1..<?n] st = scan_positions ?jtt ?cr [i..<?n - 1] st"
    for st
  proof -
    have "scan_positions ?jtt ?cr [i..<?n - 1] st
            = scan_positions jtt cr (map Suc [i..<?n - 1]) st"
    proof (rule scan_positions_cong)
      fix j st assume "j \<in> set [i..<?n - 1]"
      then have j: "i \<le> j" "j < ?n - 1" by simp_all
      then have "?cr ! j = cr ! Suc j"
        using later by (simp add: delete_nth_def nth_append)
      moreover have "?jtt j = jtt (Suc j)" using j by (simp add: delete_position_def)
      ultimately show "scan_step ?jtt ?cr j st = scan_step jtt cr (Suc j) st"
        using scan_step_same [of ?jtt j jtt "Suc j" ?cr cr st] by simp
    qed
    then show ?thesis unfolding shift by (rule sym)
  qed
  have "scan jtt cr
          = scan_positions jtt cr (i # [i + 1..<?n]) (scan_positions jtt cr [0..<i] scan_init)"
    unfolding scan_def by (subst split) (simp add: scan_positions_append)
  also have "\<dots> = scan_positions jtt cr [i + 1..<?n] (scan_positions jtt cr [0..<i] scan_init)"
    using u ne by (rule rejected_then_more)
  also have "\<dots> = scan_positions ?jtt ?cr [i..<?n - 1]
                      (scan_positions ?jtt ?cr [0..<i] scan_init)"
    by (simp only: before after)
  also have "\<dots> = scan ?jtt ?cr"
    unfolding scan_def len by (subst split') (simp add: scan_positions_append)
  finally show ?thesis .
qed

text \<open>
  A position reported with a record identity but with an offset that is not below the
  reported length, and followed by at least one more position, leaves no trace: the scan
  goes on, and the run emits exactly what it emits on the index from which that position
  has been deleted.
\<close>

lemma rejected_position_run:
  assumes "fst (jtt i) \<noteq> 0xffffffff" and "\<not> fst (snd (jtt i)) < snd (snd (jtt i))"
    and "i + 1 < length cr"
  shows "emitted_records nrefs jtt cr
           = emitted_records nrefs (delete_position i jtt) (delete_nth i cr)"
proof -
  have "\<not> owned (jtt i)" using assms(2) by (auto simp: owned_def split: prod.splits)
  then show ?thesis using assms(3) by (simp add: emitted_records_def scan_delete_position)
qed

text \<open>In \<open>offset_beyond_length\<close> the position 1 is rejected and the positions 2 and 3 after
  it are collected.\<close>

lemma rejected_position_run_example:
  "emitted_records 1 offset_beyond_length [A, C, G, T] = [(0, ''AGT'')]
   \<and> emitted_records 1 (delete_position 1 offset_beyond_length) (delete_nth 1 [A, C, G, T])
        = [(0, ''AGT'')]"
  by (simp add: scan_eval offset_beyond_length_def delete_position_def delete_nth_def)

text \<open>
  C6. A position reported with a record identity but with an offset outside the record
  should count as unowned and contribute no character to any record. The loop skips it,
  but the lookup has already overwritten the local \<^verbatim>\<open>tlen\<close>, and when it is the last
  position of the joined text the padding after the loop uses the length it reported. In
  \<open>rejected_last\<close> a fully indexed record of length 3 is followed by one position
  reported as record 1, offset 9, length 5: record 0 is emitted with two gap characters
  appended, while the same index without that position gives \<open>''ACG''\<close>.
\<close>

theorem rejected_last_position_pads:
  "emitted_records 2 rejected_last [A, C, G, T] = [(0, ''ACGNN'')]
   \<and> rejected_last 2 = (0, 2, 3) \<and> rejected_last 3 = (1, 9, 5)
   \<and> emitted_records 2 rejected_last [A, C, G] = [(0, ''ACG'')]
   \<and> print_index_sequences 60 [] rejected_last_index = Some (Inr [''>chr1'', ''ACGNN''])"
proof -
  have e: "emitted_records 2 rejected_last [A, C, G, T] = [(0, ''ACGNN'')]"
    by (simp add: scan_eval rejected_last_def)
  have e': "emitted_records 2 rejected_last [A, C, G] = [(0, ''ACG'')]"
    by (simp add: scan_eval rejected_last_def)
  have "print_index_sequences 60 [] rejected_last_index = Some (Inr [''>chr1'', ''ACGNN''])"
    using e [unfolded numeral_2_eq_2] by (simp add: print_eval rejected_last_index_def)
  then show ?thesis using e e' by (simp add: rejected_last_def)
qed

section \<open>Line wrapping\<close>

text \<open>The loop of \<^verbatim>\<open>print_fasta_record\<close> ends for a positive width, with full lines only,
  and stops at most one width before the end of the sequence.\<close>

lemma fasta_while_lines:
  assumes w: "0 < w" and fit: "length seq + w < 2 ^ 64" and i: "i \<le> length seq"
  shows "\<exists>j ls. fasta_while w seq i fout = Some (j, fout @ ls) \<and> i \<le> j \<and> j \<le> length seq
            \<and> (i < length seq \<longrightarrow> j < length seq) \<and> length seq \<le> j + w
            \<and> concat ls = take (j - i) (drop i seq) \<and> (\<forall>l \<in> set ls. length l = w)"
  using i
proof (induction "length seq - i" arbitrary: i fout rule: less_induct)
  case less
  show ?case
  proof (cases "i + w < length seq")
    case True
    then have m: "(i + w) mod 2 ^ 64 = i + w" using fit by simp
    have "length seq - (i + w) < length seq - i" using True w by simp
    moreover have "i + w \<le> length seq" using True by simp
    ultimately obtain j ls where
      r: "fasta_while w seq (i + w) (fout @ [take w (drop i seq)])
            = Some (j, (fout @ [take w (drop i seq)]) @ ls)"
      and b: "i + w \<le> j" "j \<le> length seq" "length seq \<le> j + w"
      and jl: "i + w < length seq \<longrightarrow> j < length seq"
      and c: "concat ls = take (j - (i + w)) (drop (i + w) seq)"
      and l: "\<forall>l \<in> set ls. length l = w"
      using less.hyps [of "i + w" "fout @ [take w (drop i seq)]"] by blast
    have step: "fasta_while w seq i fout
                  = fasta_while w seq (i + w) (fout @ [take w (drop i seq)])"
      using True m by (subst fasta_while.simps) simp
    have len: "length (take w (drop i seq)) = w" using True by simp
    have "take (j - i) (drop i seq)
            = take w (drop i seq) @ take (j - i - w) (drop w (drop i seq))"
      using b(1) take_add [of w "j - i - w" "drop i seq"] by simp
    then have cc: "concat (take w (drop i seq) # ls) = take (j - i) (drop i seq)"
      using c by (simp add: add.commute diff_diff_left)
    show ?thesis
      apply (rule exI [of _ j], rule exI [of _ "take w (drop i seq) # ls"])
      using step r b jl True cc l len by simp
  next
    case False
    have "(i + w) mod 2 ^ 64 = i + w" using fit less.prems by simp
    with False have "\<not> (i + w) mod 2 ^ 64 < length seq" by simp
    then have "fasta_while w seq i fout = Some (i, fout)"
      by (subst fasta_while.simps) simp
    then show ?thesis using False less.prems by auto
  qed
qed

lemma size_t_of_int_pos: "0 \<le> sint a \<Longrightarrow> size_t_of_int a = nat (sint a)"
proof -
  assume "0 \<le> sint a"
  moreover have "sint a < 2 ^ 31" using sint_lt [of a] by simp
  ultimately have "sint a mod 2 ^ 64 = sint a" by simp
  then show ?thesis by (simp add: size_t_of_int_def)
qed

lemma sint_c_int_bound: "nat (sint (a :: c_int)) < 2 ^ 31"
  using sint_lt [of a] by simp

text \<open>
  C7. For a width of at least 1 and a non-empty sequence, \<^verbatim>\<open>print_fasta_record\<close> returns;
  after the header line, the lines it writes concatenate to the sequence, all but the
  last have exactly the width, and the last has between 1 and the width characters.
  (A \<^verbatim>\<open>std::string\<close> is shorter than \<open>2 ^ 63\<close>, so \<^verbatim>\<open>i + across\<close> does not wrap.)
\<close>

theorem fasta_round_trip:
  assumes "1 \<le> sint across" and "seq \<noteq> []" and "length seq < 2 ^ 63"
  shows "\<exists>ls. print_fasta_record across fout defline seq = Some (fout @ (''>'' @ defline) # ls)
           \<and> concat ls = seq \<and> ls \<noteq> []
           \<and> (\<forall>l \<in> set (butlast ls). length l = nat (sint across))
           \<and> 1 \<le> length (last ls) \<and> length (last ls) \<le> nat (sint across)"
proof -
  let ?w = "nat (sint across)"
  have w: "0 < ?w" using assms(1) by simp
  have sz: "size_t_of_int across = ?w" using assms(1) by (simp add: size_t_of_int_pos)
  have "?w < 2 ^ 31" by (rule sint_c_int_bound)
  then have fit: "length seq + ?w < 2 ^ 64" using assms(3) by simp
  obtain j ls where
    r: "fasta_while ?w seq 0 (fout @ [''>'' @ defline]) = Some (j, (fout @ [''>'' @ defline]) @ ls)"
    and b: "j \<le> length seq" "length seq \<le> j + ?w" "j < length seq"
    and c: "concat ls = take j seq"
    and l: "\<forall>l \<in> set ls. length l = ?w"
    using fasta_while_lines [OF w fit, of 0 "fout @ [''>'' @ defline]"] assms(2) by auto
  have p: "print_fasta_record across fout defline seq
             = Some (fout @ (''>'' @ defline) # (ls @ [drop j seq]))"
    using r b(3) by (simp add: print_fasta_record_def sz)
  have "concat (ls @ [drop j seq]) = seq" using c by simp
  moreover have "length (drop j seq) \<le> ?w" using b(2) by simp
  moreover have "1 \<le> length (drop j seq)" using b(3) by simp
  ultimately show ?thesis using p l by (intro exI [of _ "ls @ [drop j seq]"]) simp
qed

lemma print_fasta_record_example:
  "print_fasta_record 3 [] ''chr1'' ''ACGTACG'' = Some [''>chr1'', ''ACG'', ''TAC'', ''G'']"
  by (simp add: print_fasta_record_def size_t_of_int_def fasta_while.simps)

theorem fasta_round_trip_witness:
  "1 \<le> sint (3 :: c_int) \<and> ''ACGTACG'' \<noteq> [] \<and> length ''ACGTACG'' < 2 ^ 63
   \<and> (\<exists>ls. [''>chr1'', ''ACG'', ''TAC'', ''G''] = (''>'' @ ''chr1'') # ls
         \<and> concat ls = ''ACGTACG'' \<and> ls \<noteq> []
         \<and> (\<forall>l \<in> set (butlast ls). length l = 3)
         \<and> 1 \<le> length (last ls) \<and> length (last ls) \<le> 3)"
proof -
  have h1: "1 \<le> sint (3 :: c_int)" and h2: "''ACGTACG'' \<noteq> []"
    and h3: "length ''ACGTACG'' < 2 ^ 63" by simp_all
  show ?thesis
    using h1 h2 h3 fasta_round_trip [OF h1 h2 h3, of "[]" "''chr1''"]
    by (simp add: print_fasta_record_example)
qed

section \<open>Names only\<close>

lemma size_minus_one_pos:
  "0 < n \<Longrightarrow> n < 2 ^ 64 \<Longrightarrow> size_minus_one n = n - 1"
proof -
  assume a: "0 < n" "n < (2::nat) ^ 64"
  then have "n + 2 ^ 64 - 1 = (n - 1) + 1 * 2 ^ 64" by simp
  then have "(n + 2 ^ 64 - 1) mod 2 ^ 64 = (n - 1) mod 2 ^ 64"
    by (simp only: mod_mult_self1)
  then show ?thesis using a by (simp add: size_minus_one_def)
qed

lemma size_minus_one_zero: "size_minus_one 0 = 2 ^ 64 - 1"
  by (simp add: size_minus_one_def)

lemma names_loop_run:
  assumes n: "names \<noteq> []" "length names < 2 ^ 64"
  shows "i \<le> length names - 1 \<Longrightarrow>
         names_loop names i (reads, fout) =
           Inr (reads @ [i..<length names - 1], fout @ drop i (butlast names))"
proof (induction "length names - 1 - i" arbitrary: i reads fout)
  case 0
  then have i: "i = length names - 1" by simp
  have b: "size_minus_one (length names) = length names - 1"
    by (rule size_minus_one_pos) (use n in simp_all)
  show ?case using i b by (simp add: names_loop.simps [of names i])
next
  case (Suc k)
  then have i: "i < length names - 1" by simp
  have b: "size_minus_one (length names) = length names - 1"
    by (rule size_minus_one_pos) (use n in simp_all)
  have "names_loop names i (reads, fout)
          = names_loop names (i + 1) (reads @ [i], fout @ [names ! i])"
    using i b by (subst names_loop.simps) simp
  also have "\<dots> = Inr ((reads @ [i]) @ [i + 1..<length names - 1],
                        (fout @ [names ! i]) @ drop (i + 1) (butlast names))"
    using Suc.hyps(1) [of "i + 1" "reads @ [i]" "fout @ [names ! i]"] Suc.hyps(2) i by simp
  also have "\<dots> = Inr (reads @ [i..<length names - 1], fout @ drop i (butlast names))"
  proof -
    have "i < length (butlast names)" using i by simp
    then have "drop i (butlast names) = butlast names ! i # drop (Suc i) (butlast names)"
      by (rule Cons_nth_drop_Suc [symmetric])
    then have "drop i (butlast names) = names ! i # drop (i + 1) (butlast names)"
      using i by (simp add: nth_butlast)
    moreover have "[i..<length names - 1] = i # [i + 1..<length names - 1]"
      using i by (simp add: upt_conv_Cons)
    ultimately show ?thesis by simp
  qed
  finally show ?case .
qed

lemma names_loop_empty: "names_loop [] 0 (reads, fout) = Inl (Refnames_Out_Of_Range 0)"
  by (subst names_loop.simps) (simp add: size_minus_one_zero)

text \<open>
  C10. For a non-empty collection \<^verbatim>\<open>print_index_sequence_names\<close> reads exactly the indices
  \<open>0, \<dots>, size - 2\<close>, all in range. For an empty one the bound \<^verbatim>\<open>size() - 1\<close> wraps to
  \<open>2 ^ 64 - 1\<close>, the loop is entered, and the first read, at index 0, is out of range.
\<close>

theorem names_in_bounds:
  "(names \<noteq> [] \<and> length names < 2 ^ 64 \<longrightarrow>
      names_loop names 0 ([], fout) = Inr ([0..<length names - 1], fout @ butlast names))
   \<and> size_minus_one (length ([] :: string list)) = 2 ^ 64 - 1
   \<and> names_loop [] 0 ([], fout) = Inl (Refnames_Out_Of_Range 0)"
  using names_loop_run [of names 0 "[]" fout] names_loop_empty [of "[]" fout]
  by (simp add: size_minus_one_zero)

theorem names_in_bounds_witness:
  "[''chr1'', ''chr2'', []] \<noteq> [] \<and> length [''chr1'', ''chr2'', []] < 2 ^ 64
   \<and> names_loop [''chr1'', ''chr2'', []] 0 ([], []) = Inr ([0, 1], [''chr1'', ''chr2''])"
  using names_in_bounds [of "[''chr1'', ''chr2'', []]" "[]"] by simp




section \<open>Rejecting the wrap width\<close>

lemma parseOptions_across_rejected:
  assumes "list_all benign pre" and "next_option r = 97" and "sint (strtol_optarg r) < 1"
  shows "parseOptions (pre @ r # post) g s =
           Inl (1, s\<lparr>cerr := cerr s @ ''-a/--across arg must be at least 1'' # printUsage\<rparr>)"
  using assms(1)
proof (induction pre arbitrary: g)
  case Nil
  show ?case using assms(2,3) by (simp add: parseInt_def)
next
  case (Cons a pre)
  then show ?case by (auto simp: benign_def parseInt_def)
qed

text \<open>
  C8. When \<^verbatim>\<open>-a\<close> comes with an argument that \<^verbatim>\<open>strtol\<close> reads as 0 or as a negative
  number, after any options that let parsing go on (\<^verbatim>\<open>-v\<close>, \<^verbatim>\<open>-n\<close>, accepted \<^verbatim>\<open>-a\<close>) and
  before any others, \<^verbatim>\<open>main\<close> exits with status 1, with the message and the usage on
  \<^verbatim>\<open>cerr\<close> and nothing on \<^verbatim>\<open>cout\<close>: \<^verbatim>\<open>driver\<close> is not reached.
\<close>

theorem across_rejected:
  assumes "list_all benign pre" and "next_option r = 97" and "sint (strtol_optarg r) < 1"
  shows "main pf (pre @ r # post) arg e =
           Some (Inr (1, \<lparr>cout = [],
                           cerr = ''-a/--across arg must be at least 1'' # printUsage\<rparr>))"
  using parseOptions_across_rejected [OF assms, of post globals_init "\<lparr>cout = [], cerr = []\<rparr>"]
  by (simp add: main_def)

theorem across_rejected_witness:
  "list_all benign [opt_names] \<and> next_option (opt_across (- 5)) = 97
   \<and> sint (strtol_optarg (opt_across (- 5))) < 1
   \<and> main little_endian_release ([opt_names] @ opt_across (- 5) # [opt_verbose]) (Some ''idx'')
        two_names_index
      = Some (Inr (1, \<lparr>cout = [],
                      cerr = ''-a/--across arg must be at least 1'' # printUsage\<rparr>))"
proof -
  have h1: "list_all benign [opt_names]" by (simp add: benign_def opt_names_def)
  have h2: "next_option (opt_across (- 5)) = 97" by (simp add: opt_across_def)
  have h3: "sint (strtol_optarg (opt_across (- 5))) < 1" by (simp add: opt_across_def)
  show ?thesis
    using h1 h2 h3 across_rejected [OF h1 h2 h3] by blast
qed

end
